theory Spec2Isabelle
  imports Complex_Main
begin

section \<open>Values, errors and abnormal endings\<close>

text \<open>
  Keys and values are Go \<^verbatim>\<open>interface{}\<close> values. A key is any comparable value (type
  \<open>'k\<close>); a value is \<open>'v option\<close>, where \<open>None\<close> is the nil interface, which is what a
  result variable \<^verbatim>\<open>value\<close> holds until it is assigned. A Go \<^verbatim>\<open>error\<close> result is
  \<open>error option\<close>, \<open>None\<close> being nil.
\<close>

type_synonym 'v iface = "'v option"

datatype error =
    NotFound          \<comment> \<open>\<^verbatim>\<open>errors.New("not found in cache")\<close>\<close>
  | NotPositive       \<comment> \<open>\<^verbatim>\<open>errors.New("must provide a positive size")\<close>\<close>
  | InvalidSize       \<comment> \<open>\<^verbatim>\<open>fmt.Errorf("invalid size")\<close>\<close>
  | InvalidRecentRatio  \<comment> \<open>\<^verbatim>\<open>fmt.Errorf("invalid recent ratio")\<close>\<close>
  | InvalidGhostRatio   \<comment> \<open>\<^verbatim>\<open>fmt.Errorf("invalid ghost ratio")\<close>\<close>

text \<open>
  A call that does not return to its caller ends in one of two ways: the runtime stops
  the process (\<^verbatim>\<open>fatal error: sync: Unlock of unlocked RWMutex\<close>), or the call waits for
  a lock that somebody else holds.
\<close>

datatype halt = Fatal | Blocked

section \<open>\<^verbatim>\<open>sync.RWMutex\<close>\<close>

text \<open>
  The state of a reader/writer lock: whether a writer holds it and how many readers do.
  \<^verbatim>\<open>Lock\<close> needs the lock free, \<^verbatim>\<open>RLock\<close> needs no writer; \<^verbatim>\<open>Unlock\<close> of a lock that is
  not held for writing and \<^verbatim>\<open>RUnlock\<close> of a lock that no reader holds are fatal errors of
  the Go runtime.
\<close>

record rwmutex =
  writer :: bool
  readers :: nat

definition unlocked :: rwmutex where
  "unlocked = \<lparr>writer = False, readers = 0\<rparr>"

definition Lock :: "rwmutex \<Rightarrow> halt + rwmutex" where
  "Lock m = (if writer m \<or> 0 < readers m then Inl Blocked else Inr (m\<lparr>writer := True\<rparr>))"

definition Unlock :: "rwmutex \<Rightarrow> halt + rwmutex" where
  "Unlock m = (if writer m then Inr (m\<lparr>writer := False\<rparr>) else Inl Fatal)"

definition RLock :: "rwmutex \<Rightarrow> halt + rwmutex" where
  "RLock m = (if writer m then Inl Blocked else Inr (m\<lparr>readers := Suc (readers m)\<rparr>))"

definition RUnlock :: "rwmutex \<Rightarrow> halt + rwmutex" where
  "RUnlock m = (if 0 < readers m then Inr (m\<lparr>readers := readers m - 1\<rparr>) else Inl Fatal)"

section \<open>The bounded LRU store of package \<^verbatim>\<open>easy_lru_cache\<close>\<close>

text \<open>
  \<^verbatim>\<open>type lru struct { capacity int; list *list.List; cache map[interface{}]*list.Element;
  lock sync.RWMutex }\<close>.

  \<open>listL\<close> is the linked list, front first, each element with the key and the value of
  its \<^verbatim>\<open>lruItem\<close>. The map \<^verbatim>\<open>cache\<close> holds, for a key, the pointer to the list element
  whose item has that key; the code writes the map and the list together only
  (\<^verbatim>\<open>PushFront\<close> with \<^verbatim>\<open>l.cache[key] =\<close>, \<^verbatim>\<open>list.Remove\<close> with \<^verbatim>\<open>delete\<close>, \<^verbatim>\<open>Purge\<close>), so
  \<^verbatim>\<open>l.cache[key]\<close> is the look-up of the key in the list, and an element is named by its
  key. Lengths are Go \<^verbatim>\<open>int\<close>s; they are far from the machine bound and \<open>int\<close> is used.
\<close>

record ('k, 'v) lru =
  capacity :: int
  listL :: "('k \<times> 'v iface) list"
  lockL :: rwmutex

definition NewLRU :: "int \<Rightarrow> error + ('k, 'v) lru" where
  "NewLRU cap =
     (if cap \<le> 0 then Inl NotPositive
      else Inr \<lparr>capacity = cap, listL = [], lockL = unlocked\<rparr>)"

definition removeElement :: "('k, 'v) lru \<Rightarrow> 'k \<Rightarrow> ('k, 'v) lru" where
  "removeElement l key = l\<lparr>listL := filter (\<lambda>e. fst e \<noteq> key) (listL l)\<rparr>"

definition removeOldest :: "('k, 'v) lru \<Rightarrow> ('k, 'v) lru" where
  "removeOldest l =
     (case listL l of [] \<Rightarrow> l | _ # _ \<Rightarrow> removeElement l (fst (last (listL l))))"

definition MoveToFront :: "('k, 'v) lru \<Rightarrow> 'k \<Rightarrow> 'v iface \<Rightarrow> ('k, 'v) lru" where
  \<comment> \<open>the element of \<open>key\<close> goes to the front, its item holding \<open>v\<close>\<close>
  "MoveToFront l key v = l\<lparr>listL := (key, v) # filter (\<lambda>e. fst e \<noteq> key) (listL l)\<rparr>"

definition PushFront :: "('k, 'v) lru \<Rightarrow> 'k \<Rightarrow> 'v iface \<Rightarrow> ('k, 'v) lru" where
  "PushFront l key v = l\<lparr>listL := (key, v) # listL l\<rparr>"

text \<open>
  \<^verbatim>\<open>Get\<close> takes the read lock and defers \<^verbatim>\<open>l.lock.Unlock()\<close>, the release of the write
  lock. The body between the two is \<open>Get_body\<close>; \<^verbatim>\<open>MoveBefore(element, Front())\<close> puts the
  element at the front.
\<close>

definition Get_body :: "('k, 'v) lru \<Rightarrow> 'k \<Rightarrow> ('k, 'v) lru \<times> 'v iface \<times> error option" where
  "Get_body l key =
     (case map_of (listL l) key of
        None \<Rightarrow> (l, None, Some NotFound)
      | Some v \<Rightarrow> (MoveToFront l key v, v, None))"

definition lru_Get :: "('k, 'v) lru \<Rightarrow> 'k \<Rightarrow> halt + ('k, 'v) lru \<times> 'v iface \<times> error option" where
  "lru_Get l key =
     (case RLock (lockL l) of Inl h \<Rightarrow> Inl h
      | Inr m \<Rightarrow>
          (case Get_body (l\<lparr>lockL := m\<rparr>) key of
             (l', value, err) \<Rightarrow>
               (case Unlock (lockL l') of Inl h \<Rightarrow> Inl h
                | Inr m' \<Rightarrow> Inr (l'\<lparr>lockL := m'\<rparr>, value, err))))"

definition Put_body :: "('k, 'v) lru \<Rightarrow> 'k \<Rightarrow> 'v iface \<Rightarrow> ('k, 'v) lru \<times> error option" where
  "Put_body l key value =
     (case map_of (listL l) key of
        Some _ \<Rightarrow> (MoveToFront l key value, None)
      | None \<Rightarrow>
          (let l' = (if capacity l \<le> int (length (listL l)) then removeOldest l else l)
           in (PushFront l' key value, None)))"

definition lru_Put :: "('k, 'v) lru \<Rightarrow> 'k \<Rightarrow> 'v iface \<Rightarrow> halt + ('k, 'v) lru \<times> error option" where
  "lru_Put l key value =
     (case Lock (lockL l) of Inl h \<Rightarrow> Inl h
      | Inr m \<Rightarrow>
          (case Put_body (l\<lparr>lockL := m\<rparr>) key value of
             (l', err) \<Rightarrow>
               (case Unlock (lockL l') of Inl h \<Rightarrow> Inl h
                | Inr m' \<Rightarrow> Inr (l'\<lparr>lockL := m'\<rparr>, err))))"

text \<open>
  In \<^verbatim>\<open>Peek\<close> and \<^verbatim>\<open>Remove\<close> the \<^verbatim>\<open>ok\<close> of \<^verbatim>\<open>if element, ok := l.cache[key]; ok\<close> is a new
  variable of the \<^verbatim>\<open>if\<close> statement; the result parameter \<^verbatim>\<open>ok\<close> is never assigned and the
  bare \<^verbatim>\<open>return\<close> gives its zero value.
\<close>

definition lru_Peek :: "('k, 'v) lru \<Rightarrow> 'k \<Rightarrow> 'v iface \<times> bool" where
  "lru_Peek l key =
     (case map_of (listL l) key of
        Some v \<Rightarrow> (v, False)
      | None \<Rightarrow> (None, False))"

definition lru_Contains :: "('k, 'v) lru \<Rightarrow> 'k \<Rightarrow> bool" where
  "lru_Contains l key = (map_of (listL l) key \<noteq> None)"

definition lru_Remove :: "('k, 'v) lru \<Rightarrow> 'k \<Rightarrow> ('k, 'v) lru \<times> bool" where
  "lru_Remove l key =
     (case map_of (listL l) key of
        Some _ \<Rightarrow> (removeElement l key, False)
      | None \<Rightarrow> (l, False))"

definition lru_Len :: "('k, 'v) lru \<Rightarrow> int" where
  "lru_Len l = int (length (listL l))"

definition lru_RemoveOldest :: "('k, 'v) lru \<Rightarrow> ('k, 'v) lru \<times> error option" where
  "lru_RemoveOldest l = (removeOldest l, None)"

definition lru_Keys :: "('k, 'v) lru \<Rightarrow> 'k list" where
  \<comment> \<open>from \<^verbatim>\<open>Back()\<close> along \<^verbatim>\<open>Prev()\<close>: oldest first\<close>
  "lru_Keys l = rev (map fst (listL l))"

definition lru_Purge :: "('k, 'v) lru \<Rightarrow> ('k, 'v) lru" where
  "lru_Purge l = l\<lparr>listL := []\<rparr>"

section \<open>The LRU of package \<^verbatim>\<open>internal/lru\<close>\<close>

text \<open>
  \<^verbatim>\<open>type LRU struct { capacity int; list *list.List; cache map[interface{}]*list.Element;
  mu sync.RWMutex }\<close>, the store that the second \<^verbatim>\<open>main\<close> program runs. It has
  \<^verbatim>\<open>NewLRU\<close>, \<^verbatim>\<open>Get\<close> and \<^verbatim>\<open>Put\<close> only; \<^verbatim>\<open>Get\<close> takes no lock; the field \<^verbatim>\<open>expiration\<close>
  of an item is never written and is left out. The list is modelled as for \<open>lru\<close>.
\<close>

record ('k, 'v) LRU =
  capacityI :: int
  listI :: "('k \<times> 'v iface) list"
  mu :: rwmutex

definition internal_NewLRU :: "int \<Rightarrow> error + ('k, 'v) LRU" where
  "internal_NewLRU cap =
     (if cap \<le> 0 then Inl NotPositive
      else Inr \<lparr>capacityI = cap, listI = [], mu = unlocked\<rparr>)"

definition internal_removeElement :: "('k, 'v) LRU \<Rightarrow> 'k \<Rightarrow> ('k, 'v) LRU" where
  "internal_removeElement l key = l\<lparr>listI := filter (\<lambda>e. fst e \<noteq> key) (listI l)\<rparr>"

definition internal_removeOldest :: "('k, 'v) LRU \<Rightarrow> ('k, 'v) LRU" where
  "internal_removeOldest l =
     (case listI l of [] \<Rightarrow> l | _ # _ \<Rightarrow> internal_removeElement l (fst (last (listI l))))"

definition internal_Get :: "('k, 'v) LRU \<Rightarrow> 'k \<Rightarrow> ('k, 'v) LRU \<times> 'v iface \<times> error option" where
  "internal_Get l key =
     (case map_of (listI l) key of
        None \<Rightarrow> (l, None, Some NotFound)
      | Some v \<Rightarrow> (l\<lparr>listI := (key, v) # filter (\<lambda>e. fst e \<noteq> key) (listI l)\<rparr>, v, None))"

definition internal_Put :: "('k, 'v) LRU \<Rightarrow> 'k \<Rightarrow> 'v iface \<Rightarrow> halt + ('k, 'v) LRU \<times> error option" where
  "internal_Put l key value =
     (case Lock (mu l) of Inl h \<Rightarrow> Inl h
      | Inr m \<Rightarrow>
          (let l0 = l\<lparr>mu := m\<rparr>;
               l1 = (case map_of (listI l0) key of
                       Some _ \<Rightarrow> l0\<lparr>listI := (key, value) # filter (\<lambda>e. fst e \<noteq> key) (listI l0)\<rparr>
                     | None \<Rightarrow>
                         (let l' = (if capacityI l0 \<le> int (length (listI l0))
                                    then internal_removeOldest l0 else l0)
                          in l'\<lparr>listI := (key, value) # listI l'\<rparr>))
           in (case Unlock (mu l1) of Inl h \<Rightarrow> Inl h
               | Inr m' \<Rightarrow> Inr (l1\<lparr>mu := m'\<rparr>, None))))"

section \<open>\<^verbatim>\<open>float64\<close> parameters\<close>

text \<open>
  A \<^verbatim>\<open>float64\<close> is a finite value (given by the rational it denotes; both zeros are
  \<open>Finite 0\<close>), an infinity or a NaN. \<open>flt_less\<close> and \<open>flt_eq\<close> are Go's \<^verbatim>\<open><\<close> and \<^verbatim>\<open>==\<close>:
  every comparison with a NaN is false.
\<close>

datatype float64 = Finite rat | PosInf | NegInf | NaN

fun flt_less :: "float64 \<Rightarrow> float64 \<Rightarrow> bool" where
  "flt_less NaN _ = False"
| "flt_less _ NaN = False"
| "flt_less (Finite a) (Finite b) = (a < b)"
| "flt_less _ NegInf = False"
| "flt_less PosInf _ = False"
| "flt_less NegInf _ = True"
| "flt_less _ PosInf = True"

fun flt_eq :: "float64 \<Rightarrow> float64 \<Rightarrow> bool" where
  "flt_eq (Finite a) (Finite b) = (a = b)"
| "flt_eq PosInf PosInf = True"
| "flt_eq NegInf NegInf = True"
| "flt_eq _ _ = False"

text \<open>
  The constants \<^verbatim>\<open>0.20\<close> and \<^verbatim>\<open>0.80\<close> as \<^verbatim>\<open>float64\<close>: the nearest values are
  \<open>3602879701896397 / 2^54\<close> and \<open>3602879701896397 / 2^52\<close>.
\<close>

definition Default2QRecentRatio :: float64 where
  "Default2QRecentRatio = Finite (3602879701896397 / 2 ^ 54)"

definition Default2QGhostEntries :: float64 where
  "Default2QGhostEntries = Finite (3602879701896397 / 2 ^ 52)"

text \<open>
  The sub-sizes are \<^verbatim>\<open>int(float64(size) * ratio)\<close>: the product is rounded to a
  \<^verbatim>\<open>float64\<close> and then cut off towards zero, and for a NaN or a product beyond the range
  of \<^verbatim>\<open>int\<close> the result is left to the platform. The constructors take this function as
  their first argument \<open>scale\<close> (\<open>scale sz ratio\<close> is the value of the Go expression for the size \<open>sz\<close>), and
  what is proved holds for every \<open>scale\<close>. \<open>truncProduct\<close> is the function without the
  rounding; it is the Go value wherever the product is itself a \<^verbatim>\<open>float64\<close> within the
  range of \<^verbatim>\<open>int\<close>, as in all the concrete runs below (\<open>-(2^63)\<close> is what amd64 gives
  otherwise).
\<close>

definition truncProduct :: "int \<Rightarrow> float64 \<Rightarrow> int" where
  "truncProduct sz ratio =
     (case ratio of
        Finite r \<Rightarrow> (let x = of_int sz * r in if 0 \<le> x then \<lfloor>x\<rfloor> else \<lceil>x\<rceil>)
      | _ \<Rightarrow> - (2 ^ 63))"

section \<open>The 2Q cache\<close>

text \<open>
  \<^verbatim>\<open>type twoQueueCache struct { size int; recentSize int; recent, frequent, recentEvict
  LRUCache; lock sync.RWMutex; expiration *time.Time }\<close>. The three stores are the \<open>lru\<close>
  values that \<^verbatim>\<open>NewLRU\<close> made; \<^verbatim>\<open>expiration\<close> is never written or read and is left out.
\<close>

record ('k, 'v) twoQueueCache =
  sizeT :: int
  recentSize :: int
  recent :: "('k, 'v) lru"
  frequent :: "('k, 'v) lru"
  recentEvict :: "('k, 'v) lru"
  lockT :: rwmutex

definition New2QParams ::
  "(int \<Rightarrow> float64 \<Rightarrow> int) \<Rightarrow> int \<Rightarrow> float64 \<Rightarrow> float64 \<Rightarrow> error + ('k, 'v) twoQueueCache" where
  "New2QParams scale sz recentRatio ghostRatio =
     (if sz \<le> 0 then Inl InvalidSize
      else if flt_less recentRatio (Finite 0) \<or> flt_less (Finite 1) recentRatio
        then Inl InvalidRecentRatio
      else if flt_less ghostRatio (Finite 0) \<or> flt_less (Finite 1) ghostRatio
        then Inl InvalidGhostRatio
      else
        (let recentSize' = scale sz recentRatio;
             evictSize = scale sz ghostRatio
         in case NewLRU sz of Inl err \<Rightarrow> Inl err
            | Inr recent' \<Rightarrow>
         (case NewLRU sz of Inl err \<Rightarrow> Inl err
            | Inr frequent' \<Rightarrow>
         (case NewLRU evictSize of Inl err \<Rightarrow> Inl err
            | Inr recentEvict' \<Rightarrow>
                Inr \<lparr>sizeT = sz, recentSize = recentSize', recent = recent',
                     frequent = frequent', recentEvict = recentEvict',
                     lockT = unlocked\<rparr>))))"

definition New2Q ::
  "(int \<Rightarrow> float64 \<Rightarrow> int) \<Rightarrow> int \<Rightarrow> float64 \<Rightarrow> float64 \<Rightarrow> error + ('k, 'v) twoQueueCache" where
  "New2Q scale sz recentRation ghostEntries =
     New2QParams scale sz
       (if flt_eq recentRation (Finite 0) then Default2QRecentRatio else recentRation)
       (if flt_eq ghostEntries (Finite 0) then Default2QGhostEntries else ghostEntries)"

text \<open>\<^verbatim>\<open>t.lock.Lock(); defer t.lock.Unlock()\<close> and \<^verbatim>\<open>t.lock.RLock(); defer t.lock.RUnlock()\<close>
  around a body.\<close>

definition lockedT ::
  "('k, 'v) twoQueueCache \<Rightarrow> (('k, 'v) twoQueueCache \<Rightarrow> halt + ('k, 'v) twoQueueCache \<times> 'a)
     \<Rightarrow> halt + ('k, 'v) twoQueueCache \<times> 'a" where
  "lockedT t body =
     (case Lock (lockT t) of Inl h \<Rightarrow> Inl h
      | Inr m \<Rightarrow>
          (case body (t\<lparr>lockT := m\<rparr>) of Inl h \<Rightarrow> Inl h
           | Inr (t', x) \<Rightarrow>
               (case Unlock (lockT t') of Inl h \<Rightarrow> Inl h
                | Inr m' \<Rightarrow> Inr (t'\<lparr>lockT := m'\<rparr>, x))))"

definition rlockedT ::
  "('k, 'v) twoQueueCache \<Rightarrow> (('k, 'v) twoQueueCache \<Rightarrow> 'a) \<Rightarrow> halt + ('k, 'v) twoQueueCache \<times> 'a" where
  "rlockedT t body =
     (case RLock (lockT t) of Inl h \<Rightarrow> Inl h
      | Inr m \<Rightarrow>
          (let x = body (t\<lparr>lockT := m\<rparr>)
           in case RUnlock m of Inl h \<Rightarrow> Inl h
              | Inr m' \<Rightarrow> Inr (t\<lparr>lockT := m'\<rparr>, x)))"

definition Get ::
  "('k, 'v) twoQueueCache \<Rightarrow> 'k \<Rightarrow> halt + ('k, 'v) twoQueueCache \<times> 'v iface \<times> error option" where
  \<comment> \<open>no use of \<^verbatim>\<open>t.lock\<close>; the \<^verbatim>\<open>value\<close> of \<^verbatim>\<open>value, ok := t.recent.Peek(key)\<close> is local to the \<^verbatim>\<open>if\<close>\<close>
  "Get t key =
     (case lru_Get (frequent t) key of Inl h \<Rightarrow> Inl h
      | Inr (f, value, err) \<Rightarrow>
          (let t1 = t\<lparr>frequent := f\<rparr>
           in if err = None then Inr (t1, value, err)
              else (case lru_Peek (recent t1) key of
                      (value', ok) \<Rightarrow>
                        if ok then
                          (case lru_Remove (recent t1) key of
                             (r, _) \<Rightarrow>
                               (case lru_Put (frequent t1) key value' of Inl h \<Rightarrow> Inl h
                                | Inr (f', err') \<Rightarrow>
                                    Inr (t1\<lparr>recent := r, frequent := f'\<rparr>, value, err')))
                        else Inr (t1, value, err))))"

definition ensureSpace ::
  "('k, 'v) twoQueueCache \<Rightarrow> bool \<Rightarrow> ('k, 'v) twoQueueCache \<times> error option" where
  "ensureSpace t recentEvictHit =
     (let recentLen = lru_Len (recent t);
          freqLen = lru_Len (frequent t)
      in if recentLen + freqLen < sizeT t then (t, None)
         else if 0 < recentLen \<and>
                 (recentSize t < recentLen \<or> (recentLen = recentSize t \<and> \<not> recentEvictHit))
           then (case lru_RemoveOldest (recent t) of (r, err) \<Rightarrow> (t\<lparr>recent := r\<rparr>, err))
         else (case lru_RemoveOldest (frequent t) of (f, err) \<Rightarrow> (t\<lparr>frequent := f\<rparr>, err)))"

definition Add_body ::
  "('k, 'v) twoQueueCache \<Rightarrow> 'k \<Rightarrow> 'v iface \<Rightarrow> halt + ('k, 'v) twoQueueCache \<times> error option" where
  "Add_body t key value =
     (if lru_Contains (frequent t) key then
        (case lru_Put (frequent t) key value of Inl h \<Rightarrow> Inl h
         | Inr (f, err) \<Rightarrow> Inr (t\<lparr>frequent := f\<rparr>, err))
      else if lru_Contains (recent t) key then
        (case lru_Remove (recent t) key of
           (r, _) \<Rightarrow>
             (case lru_Put (frequent t) key value of Inl h \<Rightarrow> Inl h
              | Inr (f, err) \<Rightarrow> Inr (t\<lparr>recent := r, frequent := f\<rparr>, err)))
      else if lru_Contains (recentEvict t) key then
        (case ensureSpace t True of
           (t1, err) \<Rightarrow>
             if err \<noteq> None then Inr (t1, err)
             else (case lru_Remove (recentEvict t1) key of
                     (g, _) \<Rightarrow>
                       (case lru_Put (frequent t1) key value of Inl h \<Rightarrow> Inl h
                        | Inr (f, err') \<Rightarrow> Inr (t1\<lparr>recentEvict := g, frequent := f\<rparr>, err'))))
      else
        (case ensureSpace t False of
           (t1, err) \<Rightarrow>
             if err \<noteq> None then Inr (t1, err)
             else (case lru_Put (recent t1) key value of Inl h \<Rightarrow> Inl h
                   | Inr (r, err') \<Rightarrow> Inr (t1\<lparr>recent := r\<rparr>, err'))))"

definition Add ::
  "('k, 'v) twoQueueCache \<Rightarrow> 'k \<Rightarrow> 'v iface \<Rightarrow> halt + ('k, 'v) twoQueueCache \<times> error option" where
  "Add t key value = lockedT t (\<lambda>t'. Add_body t' key value)"

definition Remove_body :: "('k, 'v) twoQueueCache \<Rightarrow> 'k \<Rightarrow> ('k, 'v) twoQueueCache" where
  "Remove_body t key =
     (case lru_Remove (frequent t) key of
        (f, ok) \<Rightarrow>
          (let t1 = t\<lparr>frequent := f\<rparr>
           in if ok then t1
              else (case lru_Remove (recent t1) key of
                      (r, ok') \<Rightarrow>
                        (let t2 = t1\<lparr>recent := r\<rparr>
                         in if ok' then t2
                            else (case lru_Remove (recentEvict t2) key of
                                    (g, _) \<Rightarrow> t2\<lparr>recentEvict := g\<rparr>)))))"

definition Remove :: "('k, 'v) twoQueueCache \<Rightarrow> 'k \<Rightarrow> halt + ('k, 'v) twoQueueCache \<times> unit" where
  "Remove t key = lockedT t (\<lambda>t'. Inr (Remove_body t' key, ()))"

definition Purge_body :: "('k, 'v) twoQueueCache \<Rightarrow> ('k, 'v) twoQueueCache" where
  "Purge_body t =
     t\<lparr>recent := lru_Purge (recent t), frequent := lru_Purge (frequent t),
       recentEvict := lru_Purge (recentEvict t)\<rparr>"

definition Purge :: "('k, 'v) twoQueueCache \<Rightarrow> halt + ('k, 'v) twoQueueCache \<times> unit" where
  "Purge t = lockedT t (\<lambda>t'. Inr (Purge_body t', ()))"

definition Len :: "('k, 'v) twoQueueCache \<Rightarrow> halt + ('k, 'v) twoQueueCache \<times> int" where
  "Len t = rlockedT t (\<lambda>t'. lru_Len (recent t') + lru_Len (frequent t'))"

definition Keys :: "('k, 'v) twoQueueCache \<Rightarrow> halt + ('k, 'v) twoQueueCache \<times> 'k list" where
  "Keys t = rlockedT t (\<lambda>t'. lru_Keys (frequent t') @ lru_Keys (recent t'))"

definition Contains :: "('k, 'v) twoQueueCache \<Rightarrow> 'k \<Rightarrow> halt + ('k, 'v) twoQueueCache \<times> bool" where
  "Contains t key =
     rlockedT t (\<lambda>t'. lru_Contains (frequent t') key \<or> lru_Contains (recent t') key)"

definition Peek ::
  "('k, 'v) twoQueueCache \<Rightarrow> 'k \<Rightarrow> halt + ('k, 'v) twoQueueCache \<times> 'v iface \<times> bool" where
  "Peek t key =
     rlockedT t (\<lambda>t'. case lru_Peek (frequent t') key of
                        (val, ok) \<Rightarrow> if ok then (val, ok) else lru_Peek (recent t') key)"

subsection \<open>Sequences of calls\<close>

datatype ('k, 'v) call =
    CallAdd 'k "'v iface" | CallGet 'k | CallRemove 'k | CallPurge
  | CallLen | CallKeys | CallContains 'k | CallPeek 'k

text \<open>The cache after one call of a public method, when the call returns.\<close>

fun step :: "('k, 'v) twoQueueCache \<Rightarrow> ('k, 'v) call \<Rightarrow> halt + ('k, 'v) twoQueueCache" where
  "step t (CallAdd key value) = map_sum id fst (Add t key value)"
| "step t (CallGet key) = map_sum id fst (Get t key)"
| "step t (CallRemove key) = map_sum id fst (Remove t key)"
| "step t CallPurge = map_sum id fst (Purge t)"
| "step t CallLen = map_sum id fst (Len t)"
| "step t CallKeys = map_sum id fst (Keys t)"
| "step t (CallContains key) = map_sum id fst (Contains t key)"
| "step t (CallPeek key) = map_sum id fst (Peek t key)"

fun run :: "('k, 'v) twoQueueCache \<Rightarrow> ('k, 'v) call list \<Rightarrow> halt + ('k, 'v) twoQueueCache" where
  "run t [] = Inr t"
| "run t (c # cs) = (case step t c of Inl h \<Rightarrow> Inl h | Inr t' \<Rightarrow> run t' cs)"

subsection \<open>Repeated puts\<close>

text \<open>A sequence of \<^verbatim>\<open>Put\<close> calls on one store, in order, as the \<^verbatim>\<open>main\<close> programs make them.\<close>

fun puts :: "('k, 'v) lru \<Rightarrow> ('k \<times> 'v iface) list \<Rightarrow> halt + ('k, 'v) lru" where
  "puts l [] = Inr l"
| "puts l ((key, value) # kvs) =
     (case lru_Put l key value of Inl h \<Rightarrow> Inl h | Inr (l', _) \<Rightarrow> puts l' kvs)"

fun internal_puts :: "('k, 'v) LRU \<Rightarrow> ('k \<times> 'v iface) list \<Rightarrow> halt + ('k, 'v) LRU" where
  "internal_puts l [] = Inr l"
| "internal_puts l ((key, value) # kvs) =
     (case internal_Put l key value of Inl h \<Rightarrow> Inl h | Inr (l', _) \<Rightarrow> internal_puts l' kvs)"

text \<open>The two store types have the same fields; \<open>as_lru\<close> reads an \<open>LRU\<close> as an \<open>lru\<close>.\<close>

definition as_lru :: "('k, 'v) LRU \<Rightarrow> ('k, 'v) lru" where
  "as_lru l = \<lparr>capacity = capacityI l, listL = listI l, lockL = mu l\<rparr>"

subsection \<open>The invariant of the 2Q cache\<close>

text \<open>
  What holds of the three stores of a cache of size \<open>sz\<close> between calls: the two visible
  stores have capacity \<open>sz\<close>, no key twice, no key in common and at most \<open>sz\<close> entries
  together; the ghost store is empty; no lock is held.
\<close>

definition stores_ok :: "int \<Rightarrow> ('k, 'v) twoQueueCache \<Rightarrow> bool" where
  "stores_ok sz t =
     (sizeT t = sz \<and> 0 < sz \<and> capacity (recent t) = sz \<and> capacity (frequent t) = sz \<and>
      distinct (map fst (listL (recent t))) \<and> distinct (map fst (listL (frequent t))) \<and>
      fst ` set (listL (recent t)) \<inter> fst ` set (listL (frequent t)) = {} \<and>
      listL (recentEvict t) = [] \<and>
      int (length (listL (recent t))) + int (length (listL (frequent t))) \<le> sz \<and>
      lockL (recent t) = unlocked \<and> lockL (frequent t) = unlocked \<and>
      lockL (recentEvict t) = unlocked)"

definition inv2Q :: "int \<Rightarrow> ('k, 'v) twoQueueCache \<Rightarrow> bool" where
  "inv2Q sz t = (stores_ok sz t \<and> lockT t = unlocked)"

subsection \<open>Concrete stores and caches\<close>

text \<open>
  The keys and values of the two \<^verbatim>\<open>main\<close> programs are integers and strings. \<open>store\<close> and
  \<open>internal_store\<close> are stores with no lock held; \<open>cache2 rs fs\<close> is the cache that
  \<^verbatim>\<open>New2Q(2, 0.0, 0.0)\<close> makes, holding \<open>rs\<close> in \<^verbatim>\<open>recent\<close> and \<open>fs\<close> in \<^verbatim>\<open>frequent\<close>;
  \<open>scenario\<close> is the three puts of the second program.
\<close>

datatype basic = IntV int | StrV string

definition store :: "int \<Rightarrow> ('k \<times> 'v iface) list \<Rightarrow> ('k, 'v) lru" where
  "store c xs = \<lparr>capacity = c, listL = xs, lockL = unlocked\<rparr>"

definition internal_store :: "int \<Rightarrow> ('k \<times> 'v iface) list \<Rightarrow> ('k, 'v) LRU" where
  "internal_store c xs = \<lparr>capacityI = c, listI = xs, mu = unlocked\<rparr>"

definition cache2 ::
  "(basic \<times> basic iface) list \<Rightarrow> (basic \<times> basic iface) list \<Rightarrow> (basic, basic) twoQueueCache" where
  "cache2 rs fs =
     \<lparr>sizeT = 2, recentSize = 0, recent = store 2 rs, frequent = store 2 fs,
      recentEvict = store 1 [], lockT = unlocked\<rparr>"

definition scenario :: "(basic \<times> basic iface) list" where
  "scenario =
     [(IntV 10, Some (IntV 20)), (IntV 30, Some (IntV 40)), (StrV ''50'', Some (IntV 20))]"

section \<open>Facts about the stores\<close>

lemma lru_Get_Fatal: "lockL l = unlocked \<Longrightarrow> lru_Get l key = Inl Fatal"
  by (simp add: lru_Get_def RLock_def Unlock_def unlocked_def Get_body_def MoveToFront_def
      split: option.splits)

lemma length_filter_key:
  "distinct (map fst xs) \<Longrightarrow> k \<in> fst ` set xs \<Longrightarrow>
   Suc (length (filter (\<lambda>e. fst e \<noteq> k) xs)) = length xs"
proof (induction xs)
  case Nil
  then show ?case by simp
next
  case (Cons x xs)
  show ?case
  proof (cases "fst x = k")
    case True
    with Cons.prems have "k \<notin> fst ` set xs" by auto
    then have "filter (\<lambda>e. fst e \<noteq> k) xs = xs"
      by (auto simp: filter_id_conv)
    with True show ?thesis by simp
  next
    case False
    with Cons show ?thesis by auto
  qed
qed

lemma filter_last_key:
  "distinct (map fst xs) \<Longrightarrow> xs \<noteq> [] \<Longrightarrow>
   filter (\<lambda>e. fst e \<noteq> fst (last xs)) xs = butlast xs"
proof (induction xs rule: rev_induct)
  case Nil
  then show ?case by simp
next
  case (snoc x xs)
  then have "fst x \<notin> fst ` set xs" by simp
  then have "\<forall>e\<in>set xs. fst e \<noteq> fst x" by (metis imageI)
  then have "filter (\<lambda>e. fst e \<noteq> fst x) xs = xs"
    by (simp add: filter_id_conv)
  then show ?case by simp
qed

lemma removeOldest_butlast:
  "distinct (map fst (listL l)) \<Longrightarrow> removeOldest l = l\<lparr>listL := butlast (listL l)\<rparr>"
proof (cases "listL l")
  case Nil
  then show ?thesis by (simp add: removeOldest_def)
next
  case (Cons a as)
  then have ne: "listL l \<noteq> []" by simp
  assume "distinct (map fst (listL l))"
  from filter_last_key [OF this ne] Cons show ?thesis
    by (simp add: removeOldest_def removeElement_def del: last.simps butlast.simps)
qed

lemma Put_body_lock:
  "Put_body (l\<lparr>lockL := m\<rparr>) key value =
   (fst (Put_body l key value)\<lparr>lockL := m\<rparr>, None)"
  by (simp add: Put_body_def MoveToFront_def PushFront_def removeOldest_def removeElement_def
      Let_def split: option.splits list.splits)

lemma Put_body_lockL: "lockL (fst (Put_body l key value)) = lockL l"
  by (simp add: Put_body_def MoveToFront_def PushFront_def removeOldest_def removeElement_def
      Let_def split: option.splits list.splits)

lemma Put_body_err: "snd (Put_body l key value) = None"
  by (simp add: Put_body_def Let_def split: option.splits)

lemma lru_Put_unlocked:
  assumes "lockL l = unlocked"
  shows "lru_Put l key value = Inr (Put_body l key value)"
proof -
  obtain l' e where pb: "Put_body l key value = (l', e)" by (cases "Put_body l key value")
  have e: "e = None" using Put_body_err[of l key "value"] pb by simp
  have lk: "lockL l' = unlocked" using Put_body_lockL[of l key "value"] pb assms by simp
  have "l'\<lparr>lockL := unlocked\<rparr> = l'" using lk by simp
  then show ?thesis
    using assms pb e
    by (simp add: lru_Put_def Lock_def Unlock_def unlocked_def Put_body_lock)
qed

lemma Put_body_present:
  "k \<in> fst ` set (listL l) \<Longrightarrow>
   Put_body l k v = (l\<lparr>listL := (k, v) # filter (\<lambda>e. fst e \<noteq> k) (listL l)\<rparr>, None)"
  by (auto simp: Put_body_def MoveToFront_def map_of_eq_None_iff split: option.splits)

lemma Put_body_room:
  assumes "k \<notin> fst ` set (listL l)" and "int (length (listL l)) < capacity l"
  shows "Put_body l k v = (l\<lparr>listL := (k, v) # listL l\<rparr>, None)"
proof -
  have "map_of (listL l) k = None" using assms(1) by (simp add: map_of_eq_None_iff)
  then show ?thesis using assms(2) by (simp add: Put_body_def PushFront_def)
qed

lemma Put_body_full:
  assumes "k \<notin> fst ` set (listL l)" and "capacity l \<le> int (length (listL l))"
    and "distinct (map fst (listL l))"
  shows "Put_body l k v = (l\<lparr>listL := (k, v) # butlast (listL l)\<rparr>, None)"
proof -
  have "map_of (listL l) k = None" using assms(1) by (simp add: map_of_eq_None_iff)
  then show ?thesis
    using assms(2) removeOldest_butlast [OF assms(3)] by (simp add: Put_body_def PushFront_def)
qed

lemma stores_ok_lockT [simp]: "stores_ok sz (t\<lparr>lockT := m\<rparr>) = stores_ok sz t"
  by (simp add: stores_ok_def)

lemma ensureSpace_False:
  assumes ok: "stores_ok sz t"
  obtains t1 where "ensureSpace t False = (t1, None)" and "stores_ok sz t1"
    and "lockT t1 = lockT t"
    and "fst ` set (listL (recent t1)) \<subseteq> fst ` set (listL (recent t))"
    and "fst ` set (listL (frequent t1)) \<subseteq> fst ` set (listL (frequent t))"
    and "int (length (listL (recent t1))) + int (length (listL (frequent t1))) < sz
         \<or> int (length (listL (recent t1))) = sz"
proof -
  let ?R = "listL (recent t)" and ?F = "listL (frequent t)"
  from ok have dR: "distinct (map fst ?R)" and dF: "distinct (map fst ?F)"
    and le: "int (length ?R) + int (length ?F) \<le> sz" and sz: "sizeT t = sz"
    by (simp_all add: stores_ok_def)
  consider (space) "int (length ?R) + int (length ?F) < sz"
    | (rec) "\<not> int (length ?R) + int (length ?F) < sz"
        "0 < int (length ?R) \<and> (recentSize t < int (length ?R) \<or> int (length ?R) = recentSize t)"
    | (freq) "\<not> int (length ?R) + int (length ?F) < sz"
        "\<not> (0 < int (length ?R) \<and> (recentSize t < int (length ?R) \<or> int (length ?R) = recentSize t))"
    by blast
  then show ?thesis
  proof cases
    case space
    then have "ensureSpace t False = (t, None)"
      by (simp add: ensureSpace_def lru_Len_def sz)
    then show ?thesis using that [of t] ok space by simp
  next
    case rec
    let ?t1 = "t\<lparr>recent := recent t\<lparr>listL := butlast ?R\<rparr>\<rparr>"
    from rec have ne: "?R \<noteq> []" by auto
    have es: "ensureSpace t False = (?t1, None)"
      using rec by (auto simp: ensureSpace_def Let_def lru_Len_def sz lru_RemoveOldest_def
          removeOldest_butlast [OF dR])
    have "distinct (map fst (butlast ?R))"
      using dR by (simp add: distinct_butlast map_butlast)
    moreover have sub: "set (butlast ?R) \<subseteq> set ?R" by (auto dest: in_set_butlastD)
    moreover have len: "int (length (butlast ?R)) = int (length ?R) - 1"
      using ne by (cases ?R) simp_all
    ultimately have "stores_ok sz ?t1"
      using ok by (auto simp: stores_ok_def)
    moreover have "int (length (butlast ?R)) + int (length ?F) < sz"
      using le len by linarith
    ultimately show ?thesis using that [of ?t1] es sub by auto
  next
    case freq
    let ?t1 = "t\<lparr>frequent := frequent t\<lparr>listL := butlast ?F\<rparr>\<rparr>"
    have es: "ensureSpace t False = (?t1, None)"
      using freq by (auto simp: ensureSpace_def Let_def lru_Len_def sz lru_RemoveOldest_def
          removeOldest_butlast [OF dF])
    have "distinct (map fst (butlast ?F))"
      using dF by (simp add: distinct_butlast map_butlast)
    moreover have sub: "set (butlast ?F) \<subseteq> set ?F" by (auto dest: in_set_butlastD)
    moreover have "int (length (butlast ?F)) \<le> int (length ?F)" by simp
    ultimately have "stores_ok sz ?t1"
      using ok by (auto simp: stores_ok_def)
    moreover have "int (length ?R) + int (length (butlast ?F)) < sz \<or> int (length ?R) = sz"
      using le freq(1) by (cases "?F = []") auto
    ultimately show ?thesis using that [of ?t1] es sub by auto
  qed
qed

lemma lru_Contains_keys: "lru_Contains l k = (k \<in> fst ` set (listL l))"
  by (simp add: lru_Contains_def map_of_eq_None_iff)

lemma lru_Remove_filter:
  "lru_Remove l k = (l\<lparr>listL := filter (\<lambda>e. fst e \<noteq> k) (listL l)\<rparr>, False)"
proof (cases "map_of (listL l) k")
  case None
  then have "k \<notin> fst ` set (listL l)" by (simp add: map_of_eq_None_iff)
  then have "\<forall>e\<in>set (listL l). fst e \<noteq> k" by (metis imageI)
  then have "filter (\<lambda>e. fst e \<noteq> k) (listL l) = listL l" by (simp add: filter_id_conv)
  with None show ?thesis by (simp add: lru_Remove_def)
next
  case (Some v)
  then show ?thesis by (simp add: lru_Remove_def removeElement_def)
qed

lemma Add_body_ok:
  assumes ok: "stores_ok sz t"
  shows "\<exists>t'. Add_body t k v = Inr (t', None) \<and> stores_ok sz t' \<and> lockT t' = lockT t"
proof -
  let ?R = "listL (recent t)" and ?F = "listL (frequent t)"
  from ok have dR: "distinct (map fst ?R)" and dF: "distinct (map fst ?F)"
    and le: "int (length ?R) + int (length ?F) \<le> sz"
    and capF: "capacity (frequent t) = sz" and capR: "capacity (recent t) = sz"
    and disj: "fst ` set ?R \<inter> fst ` set ?F = {}"
    and uF: "lockL (frequent t) = unlocked" and uR: "lockL (recent t) = unlocked"
    and ghost: "listL (recentEvict t) = []"
    by (simp_all add: stores_ok_def)
  consider (infreq) "k \<in> fst ` set ?F"
    | (inrec) "k \<notin> fst ` set ?F" "k \<in> fst ` set ?R"
    | (new) "k \<notin> fst ` set ?F" "k \<notin> fst ` set ?R"
    by blast
  then show ?thesis
  proof cases
    case infreq
    let ?F' = "(k, v) # filter (\<lambda>e. fst e \<noteq> k) ?F"
    let ?t' = "t\<lparr>frequent := frequent t\<lparr>listL := ?F'\<rparr>\<rparr>"
    have "Add_body t k v = Inr (?t', None)"
      using infreq by (simp add: Add_body_def lru_Contains_keys lru_Put_unlocked [OF uF]
          Put_body_present)
    moreover have "distinct (map fst ?F')" using dF by (auto simp: distinct_map_filter)
    moreover have "fst ` set ?F' = fst ` set ?F" using infreq by auto
    moreover have "int (length ?F') = int (length ?F)"
      using length_filter_key [OF dF infreq] by simp
    ultimately show ?thesis using ok by (auto simp: stores_ok_def)
  next
    case inrec
    let ?R' = "filter (\<lambda>e. fst e \<noteq> k) ?R"
    let ?F' = "(k, v) # ?F"
    let ?t' = "t\<lparr>recent := recent t\<lparr>listL := ?R'\<rparr>, frequent := frequent t\<lparr>listL := ?F'\<rparr>\<rparr>"
    have lenR: "int (length ?R') = int (length ?R) - 1"
      using length_filter_key [OF dR inrec(2)] by linarith
    then have "0 < int (length ?R)" by linarith
    then have room: "int (length ?F) < capacity (frequent t)" using le capF by linarith
    have "Add_body t k v = Inr (?t', None)"
      using inrec by (simp add: Add_body_def lru_Contains_keys lru_Remove_filter
          lru_Put_unlocked [OF uF] Put_body_room [OF inrec(1) room])
    moreover have "distinct (map fst ?R')" using dR by (simp add: distinct_map_filter)
    moreover have "distinct (map fst ?F')" using dF inrec(1) by simp
    moreover have "fst ` set ?R' \<inter> fst ` set ?F' = {}" using disj by auto
    moreover have "int (length ?R') + int (length ?F') \<le> sz" using lenR le by simp
    ultimately show ?thesis using ok by (simp add: stores_ok_def)
  next
    case new
    from ensureSpace_False [OF ok] obtain t1 where
      es: "ensureSpace t False = (t1, None)" and ok1: "stores_ok sz t1"
      and lk: "lockT t1 = lockT t"
      and subR: "fst ` set (listL (recent t1)) \<subseteq> fst ` set ?R"
      and subF: "fst ` set (listL (frequent t1)) \<subseteq> fst ` set ?F"
      and len1: "int (length (listL (recent t1))) + int (length (listL (frequent t1))) < sz
         \<or> int (length (listL (recent t1))) = sz"
      by blast
    let ?R1 = "listL (recent t1)" and ?F1 = "listL (frequent t1)"
    from ok1 have dR1: "distinct (map fst ?R1)"
      and le1: "int (length ?R1) + int (length ?F1) \<le> sz"
      and capR1: "capacity (recent t1) = sz"
      and disj1: "fst ` set ?R1 \<inter> fst ` set ?F1 = {}"
      and uR1: "lockL (recent t1) = unlocked" and pos: "0 < sz"
      by (simp_all add: stores_ok_def)
    have kR1: "k \<notin> fst ` set ?R1" and kF1: "k \<notin> fst ` set ?F1"
      using new subR subF by auto
    have nocont: "\<not> lru_Contains (recentEvict t) k"
      using ghost by (simp add: lru_Contains_keys)
    have start: "Add_body t k v =
        (case lru_Put (recent t1) k v of Inl h \<Rightarrow> Inl h
         | Inr (r, err') \<Rightarrow> Inr (t1\<lparr>recent := r\<rparr>, err'))"
      using new nocont es by (simp add: Add_body_def lru_Contains_keys)
    show ?thesis
    proof (cases "int (length ?R1) < sz")
      case True
      let ?R' = "(k, v) # ?R1"
      let ?t' = "t1\<lparr>recent := recent t1\<lparr>listL := ?R'\<rparr>\<rparr>"
      have room: "int (length ?R1) < capacity (recent t1)" using True capR1 by simp
      have "Add_body t k v = Inr (?t', None)"
        using start by (simp add: lru_Put_unlocked [OF uR1] Put_body_room [OF kR1 room])
      moreover have "distinct (map fst ?R')" using dR1 kR1 by simp
      moreover have "fst ` set ?R' \<inter> fst ` set ?F1 = {}" using disj1 kF1 by auto
      moreover have "int (length ?R') + int (length ?F1) \<le> sz" using len1 True by auto
      ultimately show ?thesis using ok1 lk by (simp add: stores_ok_def)
    next
      case False
      let ?R' = "(k, v) # butlast ?R1"
      let ?t' = "t1\<lparr>recent := recent t1\<lparr>listL := ?R'\<rparr>\<rparr>"
      have full: "capacity (recent t1) \<le> int (length ?R1)" using False capR1 by simp
      have ne: "?R1 \<noteq> []" using False pos by auto
      have "Add_body t k v = Inr (?t', None)"
        using start by (simp add: lru_Put_unlocked [OF uR1] Put_body_full [OF kR1 full dR1])
      moreover have "distinct (map fst ?R')"
        using dR1 kR1 by (auto simp: distinct_butlast map_butlast dest: in_set_butlastD)
      moreover have "fst ` set ?R' \<inter> fst ` set ?F1 = {}"
        using disj1 kF1 by (auto dest: in_set_butlastD)
      moreover have "int (length ?R') = int (length ?R1)" using ne by (cases ?R1) simp_all
      ultimately show ?thesis using ok1 lk le1 by (simp add: stores_ok_def)
    qed
  qed
qed

lemma lockedT_unlocked:
  assumes "lockT t = unlocked"
    and "body (t\<lparr>lockT := \<lparr>writer = True, readers = 0\<rparr>\<rparr>) = Inr (t', x)"
    and "lockT t' = \<lparr>writer = True, readers = 0\<rparr>"
  shows "lockedT t body = Inr (t'\<lparr>lockT := unlocked\<rparr>, x)"
  using assms by (simp add: lockedT_def Lock_def Unlock_def unlocked_def)

lemma rlockedT_unlocked:
  assumes "lockT t = unlocked"
  shows "rlockedT t body = Inr (t, body (t\<lparr>lockT := \<lparr>writer = False, readers = 1\<rparr>\<rparr>))"
proof -
  have "t\<lparr>lockT := \<lparr>writer = False, readers = 0\<rparr>\<rparr> = t"
    using assms by (simp add: unlocked_def)
  then show ?thesis
    using assms by (simp add: rlockedT_def RLock_def RUnlock_def unlocked_def Let_def)
qed

lemma Add_inv2Q:
  assumes "inv2Q sz t"
  shows "\<exists>t'. Add t k v = Inr (t', None) \<and> inv2Q sz t'"
proof -
  let ?t0 = "t\<lparr>lockT := \<lparr>writer = True, readers = 0\<rparr>\<rparr>"
  from assms have ok: "stores_ok sz ?t0" and u: "lockT t = unlocked"
    by (simp_all add: inv2Q_def)
  from Add_body_ok [OF ok, of k v] obtain t' where
    b: "Add_body ?t0 k v = Inr (t', None)" and ok': "stores_ok sz t'"
    and lk: "lockT t' = \<lparr>writer = True, readers = 0\<rparr>"
    by auto
  have "Add t k v = Inr (t'\<lparr>lockT := unlocked\<rparr>, None)"
    unfolding Add_def
    using lockedT_unlocked [of t "\<lambda>t'. Add_body t' k v" t' None] u b lk by simp
  then show ?thesis using ok' by (simp add: inv2Q_def)
qed

lemma Remove_body_ok:
  assumes ok: "stores_ok sz t"
  shows "stores_ok sz (Remove_body t k) \<and> lockT (Remove_body t k) = lockT t"
proof -
  let ?R = "listL (recent t)" and ?F = "listL (frequent t)"
  let ?del = "filter (\<lambda>e. fst e \<noteq> k)"
  have rb: "Remove_body t k =
      t\<lparr>frequent := frequent t\<lparr>listL := ?del ?F\<rparr>, recent := recent t\<lparr>listL := ?del ?R\<rparr>,
        recentEvict := recentEvict t\<lparr>listL := ?del (listL (recentEvict t))\<rparr>\<rparr>"
    by (simp add: Remove_body_def lru_Remove_filter)
  have "int (length (?del ?R)) \<le> int (length ?R)" "int (length (?del ?F)) \<le> int (length ?F)"
    by simp_all
  moreover have "int (length ?R) + int (length ?F) \<le> sz"
    using ok by (simp add: stores_ok_def)
  ultimately have len: "int (length (?del ?R)) + int (length (?del ?F)) \<le> sz"
    by linarith
  have disj: "fst ` set (?del ?R) \<inter> fst ` set (?del ?F) = {}"
    using ok by (auto simp: stores_ok_def)
  have ghost: "?del (listL (recentEvict t)) = []"
    using ok by (simp add: stores_ok_def)
  show ?thesis
    using ok len disj ghost unfolding rb
    by (simp add: stores_ok_def distinct_map_filter del: set_filter)
qed

lemma Remove_inv2Q:
  assumes "inv2Q sz t"
  shows "\<exists>t'. Remove t k = Inr (t', ()) \<and> inv2Q sz t'"
proof -
  let ?t0 = "t\<lparr>lockT := \<lparr>writer = True, readers = 0\<rparr>\<rparr>"
  from assms have ok: "stores_ok sz ?t0" and u: "lockT t = unlocked"
    by (simp_all add: inv2Q_def)
  from Remove_body_ok [OF ok, of k]
  have ok': "stores_ok sz (Remove_body ?t0 k)"
    and lk: "lockT (Remove_body ?t0 k) = \<lparr>writer = True, readers = 0\<rparr>" by simp_all
  have "Remove t k = Inr ((Remove_body ?t0 k)\<lparr>lockT := unlocked\<rparr>, ())"
    unfolding Remove_def
    using lockedT_unlocked [of t "\<lambda>t'. Inr (Remove_body t' k, ())" "Remove_body ?t0 k" "()"] u lk
    by simp
  then show ?thesis using ok' by (simp add: inv2Q_def)
qed

lemma Purge_inv2Q:
  assumes "inv2Q sz t"
  shows "\<exists>t'. Purge t = Inr (t', ()) \<and> inv2Q sz t'"
proof -
  let ?t0 = "t\<lparr>lockT := \<lparr>writer = True, readers = 0\<rparr>\<rparr>"
  from assms have ok: "stores_ok sz ?t0" and u: "lockT t = unlocked"
    by (simp_all add: inv2Q_def)
  have ok': "stores_ok sz (Purge_body ?t0)"
    using ok by (simp add: stores_ok_def Purge_body_def lru_Purge_def)
  have lk: "lockT (Purge_body ?t0) = \<lparr>writer = True, readers = 0\<rparr>"
    by (simp add: Purge_body_def)
  have "Purge t = Inr ((Purge_body ?t0)\<lparr>lockT := unlocked\<rparr>, ())"
    unfolding Purge_def
    using lockedT_unlocked [of t "\<lambda>t'. Inr (Purge_body t', ())" "Purge_body ?t0" "()"] u lk
    by simp
  then show ?thesis using ok' by (simp add: inv2Q_def)
qed

lemma Get_Fatal: "lockL (frequent t) = unlocked \<Longrightarrow> Get t k = Inl Fatal"
  by (simp add: Get_def lru_Get_Fatal)

lemma step_inv2Q:
  assumes "inv2Q sz t" and "step t c = Inr t'"
  shows "inv2Q sz t'"
proof -
  from assms(1) have u: "lockT t = unlocked" and uF: "lockL (frequent t) = unlocked"
    by (simp_all add: inv2Q_def stores_ok_def)
  show ?thesis
  proof (cases c)
    case (CallAdd k v)
    with Add_inv2Q [OF assms(1), of k v] assms(2) show ?thesis by auto
  next
    case (CallGet k)
    with Get_Fatal [OF uF, of k] assms(2) show ?thesis by simp
  next
    case (CallRemove k)
    with Remove_inv2Q [OF assms(1), of k] assms(2) show ?thesis by auto
  next
    case CallPurge
    with Purge_inv2Q [OF assms(1)] assms(2) show ?thesis by auto
  next
    case CallLen
    with assms show ?thesis by (simp add: Len_def rlockedT_unlocked [OF u])
  next
    case CallKeys
    with assms show ?thesis by (simp add: Keys_def rlockedT_unlocked [OF u])
  next
    case (CallContains k)
    with assms show ?thesis by (simp add: Contains_def rlockedT_unlocked [OF u])
  next
    case (CallPeek k)
    with assms show ?thesis by (simp add: Peek_def rlockedT_unlocked [OF u])
  qed
qed

lemma run_inv2Q: "inv2Q sz t \<Longrightarrow> run t cs = Inr t' \<Longrightarrow> inv2Q sz t'"
proof (induction cs arbitrary: t)
  case Nil
  then show ?case by simp
next
  case (Cons c cs)
  from Cons.prems(2) obtain t1 where s: "step t c = Inr t1" and r: "run t1 cs = Inr t'"
    by (auto split: sum.splits)
  from Cons.IH [OF step_inv2Q [OF Cons.prems(1) s] r] show ?case .
qed

lemma New2QParams_inv2Q:
  "New2QParams scale sz rr gr = Inr t \<Longrightarrow> inv2Q sz t"
  by (auto simp: New2QParams_def NewLRU_def inv2Q_def stores_ok_def Let_def
      split: if_splits)

lemma take_append_take: "take n (xs @ take n ys) = take n (xs @ ys)"
  by (simp add: take_append min_def)

lemma Put_body_new_take:
  assumes "k \<notin> fst ` set (listL l)" and "distinct (map fst (listL l))"
    and "0 < capacity l" and "int (length (listL l)) \<le> capacity l"
  shows "Put_body l k v = (l\<lparr>listL := take (nat (capacity l)) ((k, v) # listL l)\<rparr>, None)"
proof (cases "int (length (listL l)) < capacity l")
  case True
  then have "take (nat (capacity l)) ((k, v) # listL l) = (k, v) # listL l" by simp
  with Put_body_room [OF assms(1) True] show ?thesis by simp
next
  case False
  with assms(4) have eq: "int (length (listL l)) = capacity l" by simp
  then have full: "capacity l \<le> int (length (listL l))" by simp
  from eq have nl: "nat (capacity l) = length (listL l)" by linarith
  from eq assms(3) have "0 < length (listL l)" by linarith
  then obtain n where n2: "length (listL l) = Suc n" by (cases "length (listL l)") simp_all
  with nl have n: "nat (capacity l) = Suc n" "length (listL l) = Suc n" by simp_all
  have "butlast (listL l) = take n (listL l)" using n(2) by (simp add: butlast_conv_take)
  with Put_body_full [OF assms(1) full assms(2)] n(1) show ?thesis by simp
qed

lemma puts_new_keys:
  assumes "lockL l = unlocked" and "0 < capacity l" and "distinct (map fst (listL l))"
    and "distinct (map fst kvs)" and "fst ` set kvs \<inter> fst ` set (listL l) = {}"
    and "int (length (listL l)) \<le> capacity l"
  shows "puts l kvs = Inr (l\<lparr>listL := take (nat (capacity l)) (rev kvs @ listL l)\<rparr>)"
  using assms
proof (induction kvs arbitrary: l)
  case Nil
  then show ?case by simp
next
  case (Cons kv kvs)
  obtain k v where kv: "kv = (k, v)" by (cases kv)
  let ?n = "nat (capacity l)"
  let ?l1 = "l\<lparr>listL := take ?n ((k, v) # listL l)\<rparr>"
  have knew: "k \<notin> fst ` set (listL l)" using Cons.prems(5) kv by auto
  have put: "lru_Put l k v = Inr (?l1, None)"
    using lru_Put_unlocked [OF Cons.prems(1)]
      Put_body_new_take [OF knew Cons.prems(3) Cons.prems(2) Cons.prems(6)] by simp
  have d1: "distinct (map fst (listL ?l1))"
    using Cons.prems(3) knew by (simp add: take_map [symmetric] del: take_Cons')
  have sub: "set (listL ?l1) \<subseteq> insert (k, v) (set (listL l))"
    using set_take_subset [of ?n "(k, v) # listL l"] by simp
  have "k \<notin> fst ` set kvs" using Cons.prems(4) kv by simp
  moreover have "fst ` set (listL ?l1) \<subseteq> insert k (fst ` set (listL l))"
    using image_mono [OF sub, of fst] by simp
  moreover have "fst ` set kvs \<inter> fst ` set (listL l) = {}"
    using Cons.prems(5) by auto
  ultimately have disj1: "fst ` set kvs \<inter> fst ` set (listL ?l1) = {}"
    by blast
  have "length (listL ?l1) \<le> ?n" by simp
  then have len1: "int (length (listL ?l1)) \<le> capacity ?l1"
    using Cons.prems(2) by simp
  have "puts ?l1 kvs = Inr (?l1\<lparr>listL := take (nat (capacity ?l1)) (rev kvs @ listL ?l1)\<rparr>)"
    using Cons.IH [of ?l1] Cons.prems(1,2,4) d1 disj1 len1 by simp
  then show ?case
    using put kv by (simp add: take_append_take)
qed

lemma internal_Put_as_lru:
  assumes "mu l = unlocked"
  shows "\<exists>i. internal_Put l k v = Inr (i, None) \<and> as_lru i = fst (Put_body (as_lru l) k v)"
proof -
  have "\<lparr>capacityI = capacityI l, listI = listI l, mu = \<lparr>writer = False, readers = 0\<rparr>\<rparr> = l"
    using assms by (simp add: unlocked_def)
  then show ?thesis
  using assms
  by (auto simp: internal_Put_def Lock_def Unlock_def unlocked_def as_lru_def Put_body_def
      MoveToFront_def PushFront_def removeOldest_def removeElement_def
      internal_removeOldest_def internal_removeElement_def Let_def
      split: option.splits list.splits)
qed

lemma internal_puts_as_lru:
  assumes "mu l = unlocked" and "puts (as_lru l) kvs = Inr l'"
  shows "\<exists>i. internal_puts l kvs = Inr i \<and> as_lru i = l'"
  using assms
proof (induction kvs arbitrary: l)
  case Nil
  then show ?case by simp
next
  case (Cons kv kvs)
  obtain k v where kv: "kv = (k, v)" by (cases kv)
  have u: "lockL (as_lru l) = unlocked" using Cons.prems(1) by (simp add: as_lru_def)
  from internal_Put_as_lru [OF Cons.prems(1), of k v] obtain i where
    i: "internal_Put l k v = Inr (i, None)" "as_lru i = fst (Put_body (as_lru l) k v)"
    by blast
  have "lockL (as_lru i) = unlocked" using i(2) u by (simp add: Put_body_lockL)
  then have mi: "mu i = unlocked" by (simp add: as_lru_def)
  have "puts (as_lru i) kvs = Inr l'"
    using Cons.prems(2) kv i(2) lru_Put_unlocked [OF u, of k v]
    by (simp add: Put_body_err split: prod.splits)
  from Cons.IH [OF mi this] i(1) kv show ?case by simp
qed

lemma puts_fresh:
  assumes "NewLRU n = Inr l0" and "distinct (map fst kvs)" and "int (length kvs) = n + 1"
  shows "puts l0 kvs = Inr (l0\<lparr>listL := rev (tl kvs)\<rparr>)"
proof -
  from assms(1) have pos: "0 < n" and l0: "l0 = \<lparr>capacity = n, listL = [], lockL = unlocked\<rparr>"
    by (auto simp: NewLRU_def split: if_splits)
  have "puts l0 kvs = Inr (l0\<lparr>listL := take (nat (capacity l0)) (rev kvs @ listL l0)\<rparr>)"
    by (rule puts_new_keys) (use l0 pos assms(2) in simp_all)
  moreover have "take (nat n) (rev kvs) = rev (tl kvs)"
  proof -
    from assms(3) pos have len: "length kvs = Suc (nat n)" by linarith
    have "rev (take (nat n) (rev kvs)) = drop (length kvs - nat n) kvs"
      by (simp add: rev_take)
    also have "\<dots> = tl kvs" using len by (simp add: drop_Suc)
    finally show ?thesis by (metis rev_rev_ident)
  qed
  ultimately show ?thesis using l0 by simp
qed

lemma step_recentEvict_subset:
  "step t c = Inr t' \<Longrightarrow> set (listL (recentEvict t')) \<subseteq> set (listL (recentEvict t))"
  apply (cases c)
  apply (auto simp: Add_def Add_body_def lockedT_def Lock_def Unlock_def ensureSpace_def Let_def
     lru_RemoveOldest_def lru_Remove_filter Get_def lru_Peek_def Remove_def Remove_body_def Purge_def Purge_body_def
     lru_Purge_def Len_def Keys_def Contains_def Peek_def rlockedT_def RLock_def RUnlock_def
     split: if_splits sum.splits prod.splits option.splits)
  done

lemma lru_Remove_reports_False: "snd (lru_Remove l key) = False"
  by (simp add: lru_Remove_filter)

lemma lru_Remove_deletes: "\<not> lru_Contains (fst (lru_Remove l key)) key"
  by (auto simp: lru_Remove_filter lru_Contains_keys)

lemma lru_Peek_reports_False: "snd (lru_Peek l key) = False"
  by (simp add: lru_Peek_def split: option.splits)

lemma lru_Get_never_returns: "isl (lru_Get l key)"
  by (simp add: lru_Get_def RLock_def Unlock_def Get_body_def MoveToFront_def
      split: option.splits)

lemma Get_never_returns: "isl (Get t key)"
  using lru_Get_never_returns [of "frequent t" key]
  by (cases "lru_Get (frequent t) key") (simp_all add: Get_def)

lemma Get_ignores_lockT: "Get (t\<lparr>lockT := m\<rparr>) key = map_sum id (\<lambda>(t', r). (t'\<lparr>lockT := m\<rparr>, r)) (Get t key)"
  using lru_Get_never_returns [of "frequent t" key]
  by (cases "lru_Get (frequent t) key") (simp_all add: Get_def)

lemma held_blocks:
  "writer (lockT t) \<Longrightarrow> Add t key value = Inl Blocked \<and> Remove t key = Inl Blocked \<and> Purge t = Inl Blocked"
  by (simp add: Add_def Remove_def Purge_def lockedT_def Lock_def)

lemma Get_body_stores_ok:
  assumes "stores_ok sz t"
  shows "stores_ok sz (t\<lparr>frequent := fst (Get_body (frequent t) key)\<rparr>)"
proof (cases "map_of (listL (frequent t)) key")
  case None
  then show ?thesis using assms by (simp add: Get_body_def)
next
  case (Some v)
  let ?F = "listL (frequent t)"
  let ?F' = "(key, v) # filter (\<lambda>e. fst e \<noteq> key) ?F"
  from Some have k: "key \<in> fst ` set ?F" by (metis map_of_eq_None_iff option.distinct(1))
  from assms have dF: "distinct (map fst ?F)" by (simp add: stores_ok_def)
  have "distinct (map fst ?F')" using dF by (auto simp: distinct_map_filter)
  moreover have "fst ` set ?F' = fst ` set ?F" using k by auto
  moreover have "int (length ?F') = int (length ?F)"
    using length_filter_key [OF dF k] by simp
  moreover have "fst (Get_body (frequent t) key) = frequent t\<lparr>listL := ?F'\<rparr>"
    using Some by (simp add: Get_body_def MoveToFront_def)
  ultimately show ?thesis using assms by (auto simp: stores_ok_def)
qed

lemma eviction_order_of_puts:
  assumes "NewLRU n = Inr l0" and "internal_NewLRU n = Inr i0"
    and "distinct (map fst kvs)" and "int (length kvs) = n + 1"
  shows "\<exists>l i. puts l0 kvs = Inr l \<and> listL l = rev (tl kvs) \<and>
           lru_Keys l = tl (map fst kvs) \<and>
           (\<forall>k. lru_Contains l k = (k \<in> set (tl (map fst kvs)))) \<and>
           \<not> lru_Contains l (fst (hd kvs)) \<and>
           internal_puts i0 kvs = Inr i \<and> listI i = rev (tl kvs) \<and>
           internal_Get i (fst (hd kvs)) = (i, None, Some NotFound)"
proof -
  let ?l = "l0\<lparr>listL := rev (tl kvs)\<rparr>"
  have p: "puts l0 kvs = Inr ?l" by (rule puts_fresh [OF assms(1,3,4)])
  from assms(1,4) have ne: "kvs \<noteq> []" by (auto simp: NewLRU_def split: if_splits)
  then have hd_tl: "fst (hd kvs) \<notin> set (tl (map fst kvs))"
    using assms(3) by (cases kvs) simp_all
  have keys: "lru_Keys ?l = tl (map fst kvs)"
    by (simp add: lru_Keys_def rev_map [symmetric] map_tl)
  have cont: "\<And>k. lru_Contains ?l k = (k \<in> set (tl (map fst kvs)))"
    by (simp add: lru_Contains_keys map_tl [symmetric])
  from assms(1,2) have i0: "mu i0 = unlocked" "as_lru i0 = l0"
    by (auto simp: NewLRU_def internal_NewLRU_def as_lru_def split: if_splits)
  from internal_puts_as_lru [OF i0(1)] p i0(2) obtain i where
    i: "internal_puts i0 kvs = Inr i" "as_lru i = ?l" by auto
  have "listL (as_lru i) = listI i" by (simp add: as_lru_def)
  with i(2) have li: "listI i = rev (tl kvs)" by simp
  have "map_of (listI i) (fst (hd kvs)) = None"
    using hd_tl li by (simp add: map_of_eq_None_iff map_tl [symmetric])
  then have "internal_Get i (fst (hd kvs)) = (i, None, Some NotFound)"
    by (simp add: internal_Get_def)
  with p keys cont hd_tl i(1) li show ?thesis by auto
qed

section \<open>The claims\<close>

text \<open>
  Claim C3. Capacity invariant: from a cache that \<^verbatim>\<open>New2QParams\<close> made with size \<open>sz\<close>
  (\<^verbatim>\<open>New2Q\<close> is \<^verbatim>\<open>New2QParams\<close> with the default ratios put in), after every sequence of
  calls of the public methods that returns, \<^verbatim>\<open>recent.Len() + frequent.Len() <= size\<close>. A
  prefix of a sequence is a sequence, so this holds between any two calls. (\<^verbatim>\<open>Get\<close> does
  not return: see \<open>Get_Fatal\<close>; a sequence with a \<^verbatim>\<open>Get\<close> in it ends there.)
\<close>

theorem capacity_invariant:
  assumes "New2QParams scale sz recentRatio ghostRatio = Inr t" and "run t calls = Inr t'"
  shows "lru_Len (recent t') + lru_Len (frequent t') \<le> sz"
  using run_inv2Q [OF New2QParams_inv2Q [OF assms(1)] assms(2)]
  by (simp add: inv2Q_def stores_ok_def lru_Len_def)

theorem capacity_invariant_witness:
  "New2QParams truncProduct 2 (Finite (1/4)) (Finite (1/2)) = Inr (cache2 [] []) \<and>
   run (cache2 [] [])
     [CallAdd (IntV 1) (Some (StrV ''a'')), CallAdd (IntV 2) (Some (StrV ''b'')),
      CallAdd (IntV 2) (Some (StrV ''c'')), CallAdd (IntV 3) None,
      CallAdd (IntV 4) (Some (IntV 0)), CallContains (IntV 1), CallLen]
     = Inr (cache2 [(IntV 4, Some (IntV 0))] [(IntV 2, Some (StrV ''c''))]) \<and>
   lru_Len (recent (cache2 [(IntV 4, Some (IntV 0))] [(IntV 2, Some (StrV ''c''))])) +
   lru_Len (frequent (cache2 [(IntV 4, Some (IntV 0))] [(IntV 2, Some (StrV ''c''))])) \<le> 2"
proof -
  have h1: "New2QParams truncProduct 2 (Finite (1/4)) (Finite (1/2)) = Inr (cache2 [] [])"
    by code_simp
  have h2: "run (cache2 [] [])
     [CallAdd (IntV 1) (Some (StrV ''a'')), CallAdd (IntV 2) (Some (StrV ''b'')),
      CallAdd (IntV 2) (Some (StrV ''c'')), CallAdd (IntV 3) None,
      CallAdd (IntV 4) (Some (IntV 0)), CallContains (IntV 1), CallLen]
     = Inr (cache2 [(IntV 4, Some (IntV 0))] [(IntV 2, Some (StrV ''c''))])"
    by code_simp
  from capacity_invariant [OF h1 h2] h1 h2 show ?thesis by simp
qed

text \<open>
  Claim C4. Disjointness: from a cache that \<^verbatim>\<open>New2QParams\<close> made, after every sequence
  of calls of the public methods that returns, no key is in two of the three stores
  \<^verbatim>\<open>recent\<close>, \<^verbatim>\<open>frequent\<close>, \<^verbatim>\<open>recentEvict\<close>.
\<close>

theorem stores_disjoint:
  assumes "New2QParams scale sz recentRatio ghostRatio = Inr t" and "run t calls = Inr t'"
  shows "\<not> (lru_Contains (recent t') key \<and> lru_Contains (frequent t') key) \<and>
         \<not> (lru_Contains (recent t') key \<and> lru_Contains (recentEvict t') key) \<and>
         \<not> (lru_Contains (frequent t') key \<and> lru_Contains (recentEvict t') key)"
proof -
  from run_inv2Q [OF New2QParams_inv2Q [OF assms(1)] assms(2)]
  have "fst ` set (listL (recent t')) \<inter> fst ` set (listL (frequent t')) = {}"
    and "listL (recentEvict t') = []"
    by (simp_all add: inv2Q_def stores_ok_def)
  then show ?thesis by (auto simp: lru_Contains_keys)
qed

theorem stores_disjoint_witness:
  "New2QParams truncProduct 2 (Finite (1/4)) (Finite (1/2)) = Inr (cache2 [] []) \<and>
   run (cache2 [] [])
     [CallAdd (IntV 1) (Some (StrV ''a'')), CallAdd (IntV 1) (Some (StrV ''b'')),
      CallAdd (IntV 2) None, CallKeys, CallRemove (IntV 7), CallPeek (IntV 2)]
     = Inr (cache2 [(IntV 2, None)] [(IntV 1, Some (StrV ''b''))]) \<and>
   lru_Contains (frequent (cache2 [(IntV 2, None)] [(IntV 1, Some (StrV ''b''))])) (IntV 1) \<and>
   \<not> lru_Contains (recent (cache2 [(IntV 2, None)] [(IntV 1, Some (StrV ''b''))])) (IntV 1) \<and>
   \<not> lru_Contains (recentEvict (cache2 [(IntV 2, None)] [(IntV 1, Some (StrV ''b''))])) (IntV 1)"
proof -
  have h1: "New2QParams truncProduct 2 (Finite (1/4)) (Finite (1/2)) = Inr (cache2 [] [])"
    by code_simp
  have h2: "run (cache2 [] [])
     [CallAdd (IntV 1) (Some (StrV ''a'')), CallAdd (IntV 1) (Some (StrV ''b'')),
      CallAdd (IntV 2) None, CallKeys, CallRemove (IntV 7), CallPeek (IntV 2)]
     = Inr (cache2 [(IntV 2, None)] [(IntV 1, Some (StrV ''b''))])"
    by code_simp
  have h3: "lru_Contains (frequent (cache2 [(IntV 2, None)] [(IntV 1, Some (StrV ''b''))])) (IntV 1)"
    by code_simp
  from stores_disjoint [OF h1 h2, of "IntV 1"] h1 h2 h3 show ?thesis by simp
qed

text \<open>
  Claim C8. Eviction order of the bounded store: after the puts of \<open>n + 1\<close> distinct keys
  into a store of capacity \<open>n\<close> the first key is gone, the rest is kept, \<^verbatim>\<open>Keys()\<close> gives
  it oldest first, and concretely, with capacity 2, after \<^verbatim>\<open>Put(10, 20)\<close>,
  \<^verbatim>\<open>Put(30, 40)\<close>, \<^verbatim>\<open>Put("50", 20)\<close> the store holds 30 and "50" and \<^verbatim>\<open>Get(10)\<close> is to
  return the error "not found in cache". The code at that input, on the store of package
  \<^verbatim>\<open>easy_lru_cache\<close> (the one with \<^verbatim>\<open>Keys\<close>): the puts leave 30 and "50", \<^verbatim>\<open>Keys()\<close> is
  30, "50", the key 10 is not contained, and \<^verbatim>\<open>Get(10)\<close> ends in the fatal unlock and
  returns nothing. The \<^verbatim>\<open>Get\<close> of package \<^verbatim>\<open>internal/lru\<close>, which takes no lock, returns
  the error on the same contents. (The order of eviction and \<^verbatim>\<open>Keys\<close> for every capacity:
  \<open>eviction_order_of_puts\<close>.)
\<close>

theorem Get_of_evicted_key_is_fatal:
  "NewLRU 2 = Inr (store 2 [] :: (basic, basic) lru) \<and>
   puts (store 2 []) scenario =
     Inr (store 2 [(StrV ''50'', Some (IntV 20)), (IntV 30, Some (IntV 40))]) \<and>
   lru_Keys (store 2 [(StrV ''50'', Some (IntV 20)), (IntV 30, Some (IntV 40))]) =
     [IntV 30, StrV ''50''] \<and>
   lru_Contains (store 2 [(StrV ''50'', Some (IntV 20)), (IntV 30, Some (IntV 40))]) (IntV 10)
     = False \<and>
   lru_Get (store 2 [(StrV ''50'', Some (IntV 20)), (IntV 30, Some (IntV 40))]) (IntV 10)
     = Inl Fatal \<and>
   internal_NewLRU 2 = Inr (internal_store 2 [] :: (basic, basic) LRU) \<and>
   internal_puts (internal_store 2 []) scenario =
     Inr (internal_store 2 [(StrV ''50'', Some (IntV 20)), (IntV 30, Some (IntV 40))]) \<and>
   internal_Get (internal_store 2 [(StrV ''50'', Some (IntV 20)), (IntV 30, Some (IntV 40))])
     (IntV 10) =
     (internal_store 2 [(StrV ''50'', Some (IntV 20)), (IntV 30, Some (IntV 40))], None,
      Some NotFound)"
  by code_simp

text \<open>
  Claim C10. The ghost store stays empty: from a cache that \<^verbatim>\<open>New2QParams\<close> made, after
  every sequence of calls of the public methods that returns, \<^verbatim>\<open>recentEvict\<close> has no entry
  and contains no key, so \<^verbatim>\<open>Add\<close> never takes its branch \<^verbatim>\<open>t.recentEvict.Contains(key)\<close>.
  (No call adds to the store from any state: \<open>step_recentEvict_subset\<close>.)
\<close>

theorem recentEvict_stays_empty:
  assumes "New2QParams scale sz recentRatio ghostRatio = Inr t" and "run t calls = Inr t'"
  shows "listL (recentEvict t') = [] \<and> lru_Len (recentEvict t') = 0 \<and>
         \<not> lru_Contains (recentEvict t') key"
  using run_inv2Q [OF New2QParams_inv2Q [OF assms(1)] assms(2)]
  by (simp add: inv2Q_def stores_ok_def lru_Len_def lru_Contains_keys)

theorem recentEvict_stays_empty_witness:
  "New2QParams truncProduct 2 (Finite (1/4)) (Finite (1/2)) = Inr (cache2 [] []) \<and>
   run (cache2 [] [])
     [CallAdd (IntV 1) None, CallAdd (IntV 2) None, CallAdd (IntV 3) None, CallRemove (IntV 2)]
     = Inr (cache2 [(IntV 3, None)] []) \<and>
   listL (recentEvict (cache2 [(IntV 3, None)] [])) = [] \<and>
   \<not> lru_Contains (recentEvict (cache2 [(IntV 3, None)] [])) (IntV 1)"
proof -
  have h1: "New2QParams truncProduct 2 (Finite (1/4)) (Finite (1/2)) = Inr (cache2 [] [])"
    by code_simp
  have h2: "run (cache2 [] [])
     [CallAdd (IntV 1) None, CallAdd (IntV 2) None, CallAdd (IntV 3) None, CallRemove (IntV 2)]
     = Inr (cache2 [(IntV 3, None)] [])"
    by code_simp
  from recentEvict_stays_empty [OF h1 h2, of "IntV 1"] h1 h2 show ?thesis by simp
qed

text \<open>
  Claim C1. Ghost tracking: a key that \<^verbatim>\<open>ensureSpace\<close> evicts from \<^verbatim>\<open>recent\<close> is to be put
  into \<^verbatim>\<open>recentEvict\<close>, so that a later \<^verbatim>\<open>Add\<close> of it goes to \<^verbatim>\<open>frequent\<close>. The code at
  the input \<^verbatim>\<open>New2Q(2, 0.0, 0.0)\<close>, \<^verbatim>\<open>Add(1, "a")\<close>, \<^verbatim>\<open>Add(2, "b")\<close>, \<^verbatim>\<open>Add(3, "c")\<close>: the
  third call evicts key 1 from \<^verbatim>\<open>recent\<close>, \<^verbatim>\<open>recentEvict\<close> does not contain it, and
  \<^verbatim>\<open>Add(1, "v2")\<close> puts key 1 into \<^verbatim>\<open>recent\<close> and not into \<^verbatim>\<open>frequent\<close>.
\<close>

theorem evicted_key_returns_to_recent:
  "New2Q truncProduct 2 (Finite 0) (Finite 0) = Inr (cache2 [] []) \<and>
   run (cache2 [] [])
     [CallAdd (IntV 1) (Some (StrV ''a'')), CallAdd (IntV 2) (Some (StrV ''b'')),
      CallAdd (IntV 3) (Some (StrV ''c''))]
     = Inr (cache2 [(IntV 3, Some (StrV ''c'')), (IntV 2, Some (StrV ''b''))] []) \<and>
   lru_Contains (recentEvict (cache2 [(IntV 3, Some (StrV ''c'')), (IntV 2, Some (StrV ''b''))] []))
     (IntV 1) = False \<and>
   Add (cache2 [(IntV 3, Some (StrV ''c'')), (IntV 2, Some (StrV ''b''))] []) (IntV 1)
     (Some (StrV ''v2''))
     = Inr (cache2 [(IntV 1, Some (StrV ''v2'')), (IntV 3, Some (StrV ''c''))] [], None) \<and>
   lru_Contains (recent (cache2 [(IntV 1, Some (StrV ''v2'')), (IntV 3, Some (StrV ''c''))] []))
     (IntV 1) = True \<and>
   lru_Contains (frequent (cache2 [(IntV 1, Some (StrV ''v2'')), (IntV 3, Some (StrV ''c''))] []))
     (IntV 1) = False"
  by code_simp

text \<open>
  Claim C2. \<^verbatim>\<open>Get\<close> of a key that is in \<^verbatim>\<open>recent\<close> and not in \<^verbatim>\<open>frequent\<close> is to move the
  key to \<^verbatim>\<open>frequent\<close> and return its value with a nil error; after \<^verbatim>\<open>New2Q(2, 0.0, 0.0)\<close>
  and the insertion of \<^verbatim>\<open>(2, 4)\<close>, \<^verbatim>\<open>Get(2)\<close> is to return \<^verbatim>\<open>(4, nil)\<close>. The code at that
  input: \<^verbatim>\<open>Get\<close> first calls \<^verbatim>\<open>t.frequent.Get\<close>, which ends in the fatal unlock, so
  \<^verbatim>\<open>Get(2)\<close> returns nothing; and \<^verbatim>\<open>t.recent.Peek(2)\<close> gives \<^verbatim>\<open>(4, false)\<close>, so that the
  promotion would not be made either.
\<close>

theorem Get_of_recent_key_is_fatal:
  "New2Q truncProduct 2 (Finite 0) (Finite 0) = Inr (cache2 [] []) \<and>
   Add (cache2 [] []) (IntV 2) (Some (IntV 4)) = Inr (cache2 [(IntV 2, Some (IntV 4))] [], None) \<and>
   lru_Contains (frequent (cache2 [(IntV 2, Some (IntV 4))] [])) (IntV 2) = False \<and>
   lru_Contains (recent (cache2 [(IntV 2, Some (IntV 4))] [])) (IntV 2) = True \<and>
   Get (cache2 [(IntV 2, Some (IntV 4))] []) (IntV 2) = Inl Fatal \<and>
   lru_Get (frequent (cache2 [(IntV 2, Some (IntV 4))] [])) (IntV 2) = Inl Fatal \<and>
   lru_Peek (recent (cache2 [(IntV 2, Some (IntV 4))] [])) (IntV 2) = (Some (IntV 4), False)"
  by code_simp

text \<open>
  Claim C5, as amended. \<^verbatim>\<open>New2QParams\<close> gives \<^verbatim>\<open>recent\<close> and \<^verbatim>\<open>frequent\<close> the capacity
  \<^verbatim>\<open>size\<close>, and \<^verbatim>\<open>recentEvict\<close> the capacity \<^verbatim>\<open>int(float64(size) * ghostRatio)\<close>;
  \<^verbatim>\<open>int(float64(size) * recentRatio)\<close> is kept in the field \<^verbatim>\<open>recentSize\<close>, which
  \<^verbatim>\<open>ensureSpace\<close> compares the length of \<^verbatim>\<open>recent\<close> with.
\<close>

theorem New2QParams_capacities:
  assumes "New2QParams scale sz recentRatio ghostRatio = Inr t"
  shows "capacity (recent t) = sz \<and> capacity (frequent t) = sz \<and>
         capacity (recentEvict t) = scale sz ghostRatio \<and>
         recentSize t = scale sz recentRatio \<and> sizeT t = sz"
  using assms
  by (auto simp: New2QParams_def NewLRU_def Let_def split: if_splits)

theorem New2QParams_capacities_witness:
  "New2QParams truncProduct 2 (Finite (1/4)) (Finite (1/2)) = Inr (cache2 [] []) \<and>
   capacity (recent (cache2 [] [])) = 2 \<and> capacity (frequent (cache2 [] [])) = 2 \<and>
   capacity (recentEvict (cache2 [] [])) = truncProduct 2 (Finite (1/2)) \<and>
   recentSize (cache2 [] []) = truncProduct 2 (Finite (1/4)) \<and> sizeT (cache2 [] []) = 2"
proof -
  have h: "New2QParams truncProduct 2 (Finite (1/4)) (Finite (1/2)) = Inr (cache2 [] [])"
    by code_simp
  from New2QParams_capacities [OF h] h show ?thesis by simp
qed

text \<open>
  Claim C5 as stated fails at \<^verbatim>\<open>New2QParams(2, 0.25, 0.5)\<close>: \<^verbatim>\<open>recentSize\<close> is 0, the
  capacity of \<^verbatim>\<open>recent\<close> is 2, and after two insertions \<^verbatim>\<open>recent\<close> holds two entries.
\<close>

theorem recent_capacity_counterexample:
  "New2QParams truncProduct 2 (Finite (1/4)) (Finite (1/2)) = Inr (cache2 [] []) \<and>
   truncProduct 2 (Finite (1/4)) = 0 \<and>
   capacity (recent (cache2 [] [])) \<noteq> truncProduct 2 (Finite (1/4)) \<and>
   run (cache2 [] []) [CallAdd (IntV 1) None, CallAdd (IntV 2) None]
     = Inr (cache2 [(IntV 2, None), (IntV 1, None)] []) \<and>
   \<not> lru_Len (recent (cache2 [(IntV 2, None), (IntV 1, None)] []))
       \<le> truncProduct 2 (Finite (1/4))"
  by code_simp

text \<open>
  Claim C6, as amended. \<^verbatim>\<open>New2QParams\<close> returns an error exactly when \<^verbatim>\<open>size <= 0\<close>, or
  a ratio compares below 0.0 or above 1.0, or the capacity of the ghost store
  \<^verbatim>\<open>int(float64(size) * ghostRatio)\<close> is not positive (the error of \<^verbatim>\<open>NewLRU\<close>).
\<close>

theorem New2QParams_error_iff:
  "isl (New2QParams scale sz recentRatio ghostRatio :: error + ('k, 'v) twoQueueCache) =
   (sz \<le> 0 \<or> flt_less recentRatio (Finite 0) \<or> flt_less (Finite 1) recentRatio \<or>
    flt_less ghostRatio (Finite 0) \<or> flt_less (Finite 1) ghostRatio \<or>
    scale sz ghostRatio \<le> 0)"
  by (simp add: New2QParams_def NewLRU_def Let_def)

theorem New2QParams_error_iff_witness:
  "\<not> isl (New2QParams truncProduct 2 (Finite (1/4)) (Finite (1/2))
          :: error + (basic, basic) twoQueueCache) \<and>
   isl (New2QParams truncProduct 1 (Finite (1/2)) (Finite (1/2))
          :: error + (basic, basic) twoQueueCache) \<and>
   truncProduct 2 (Finite (1/2)) = 1 \<and> truncProduct 1 (Finite (1/2)) = 0"
proof -
  have a: "truncProduct 2 (Finite (1/2)) = 1" and b: "truncProduct 1 (Finite (1/2)) = 0"
    by code_simp+
  show ?thesis
    using New2QParams_error_iff [of truncProduct 2 "Finite (1/4)" "Finite (1/2)", where ?'k = basic and ?'v = basic]
      New2QParams_error_iff [of truncProduct 1 "Finite (1/2)" "Finite (1/2)", where ?'k = basic and ?'v = basic] a b
    by simp
qed

text \<open>
  Claim C6 as stated fails at \<^verbatim>\<open>New2QParams(1, 0.5, 0.5)\<close>: the size is positive and both
  ratios are in the range, and the result is the error "must provide a positive size".
\<close>

theorem valid_parameters_counterexample:
  "(0::int) < 1 \<and> \<not> flt_less (Finite (1/2)) (Finite 0) \<and> \<not> flt_less (Finite 1) (Finite (1/2)) \<and>
   New2QParams truncProduct 1 (Finite (1/2)) (Finite (1/2))
     = (Inl NotPositive :: error + (basic, basic) twoQueueCache)"
  by code_simp

text \<open>
  Claim C7. \<^verbatim>\<open>Remove\<close> of the bounded store is to return whether the key was present. The
  code at a store of capacity 2 that holds the key 10: \<^verbatim>\<open>Remove(10)\<close> deletes the entry
  and returns false. (For every store and key: \<open>lru_Remove_reports_False\<close>,
  \<open>lru_Remove_deletes\<close>.)
\<close>

theorem lru_Remove_of_present_key:
  "lru_Contains (store 2 [(IntV 10, Some (IntV 20))]) (IntV 10) = True \<and>
   lru_Remove (store 2 [(IntV 10, Some (IntV 20))]) (IntV 10) = (store 2 [], False)"
  by code_simp

text \<open>
  Claim C9. Every changing operation of the cache, \<^verbatim>\<open>Get\<close> among them, is to hold the
  lock of the cache. The code on a cache whose lock another caller holds for writing:
  \<^verbatim>\<open>Add\<close>, \<^verbatim>\<open>Remove\<close> and \<^verbatim>\<open>Purge\<close> wait for the lock; \<^verbatim>\<open>Get\<close> does not, it goes on into
  \<^verbatim>\<open>t.frequent.Get\<close> as it does when the lock is free. (For every cache:
  \<open>held_blocks\<close>, \<open>Get_ignores_lockT\<close>.)
\<close>

theorem Get_passes_held_lock:
  "Add (cache2 [(IntV 2, Some (IntV 4))] []\<lparr>lockT := \<lparr>writer = True, readers = 0\<rparr>\<rparr>) (IntV 2) (Some (IntV 5)) = Inl Blocked \<and>
   Remove (cache2 [(IntV 2, Some (IntV 4))] []\<lparr>lockT := \<lparr>writer = True, readers = 0\<rparr>\<rparr>) (IntV 2) = Inl Blocked \<and>
   Purge (cache2 [(IntV 2, Some (IntV 4))] []\<lparr>lockT := \<lparr>writer = True, readers = 0\<rparr>\<rparr>) = Inl Blocked \<and>
   Get (cache2 [(IntV 2, Some (IntV 4))] []\<lparr>lockT := \<lparr>writer = True, readers = 0\<rparr>\<rparr>) (IntV 2) = Inl Fatal \<and>
   Get (cache2 [(IntV 2, Some (IntV 4))] []) (IntV 2) = Inl Fatal"
  by code_simp

end
